theory Spec2Isabelle
  imports Main "HOL-Library.Word" "HOL-Library.Sublist"
begin

section \<open>Data model of \<open>src/tokenizer.ts\<close>\<close>

text \<open>
  A JavaScript string is a sequence of UTF-16 code units; \<open>source.length\<close>, \<open>source[i]\<close>
  and \<open>source.slice\<close> all count code units. A code unit is a 16-bit word.
\<close>

type_synonym code_unit = "16 word"
type_synonym jsstring = "code_unit list"

text \<open>ASCII literals: \<open>js ''if''\<close> is the JavaScript string \<open>"if"\<close>.\<close>

definition js :: "string \<Rightarrow> jsstring" where
  "js cs = map (\<lambda>c. of_nat (of_char c)) cs"

abbreviation LF :: code_unit where "LF \<equiv> 0x0A"              \<comment> \<open>\<open>"\n"\<close>\<close>
abbreviation slash :: code_unit where "slash \<equiv> 0x2F"        \<comment> \<open>\<open>"/"\<close>\<close>
abbreviation dquote :: code_unit where "dquote \<equiv> 0x22"      \<comment> \<open>the double quote\<close>
abbreviation squote :: code_unit where "squote \<equiv> 0x27"      \<comment> \<open>the single quote\<close>
abbreviation backslash :: code_unit where "backslash \<equiv> 0x5C"

datatype TokenType =
  Keyword | Identifier | Number | String | Operator | Punctuation | Whitespace | Comment

record Token =
  tok_type :: TokenType
  tok_value :: jsstring
  tok_line :: int
  tok_column :: int

definition KEYWORDS :: "jsstring set" where
  "KEYWORDS = set (map js [''if'', ''else'', ''while'', ''for'', ''return'', ''function'',
     ''const'', ''let'', ''var''])"

definition OPERATORS :: "jsstring set" where
  "OPERATORS = set (map js [''+'', ''-'', ''*'', ''/'', ''='', ''=='', ''!='', ''<'', ''>'',
     ''<='', ''>='', ''&&'', ''||''])"

definition PUNCTUATION :: "jsstring set" where
  "PUNCTUATION = set (map js [''('', '')'', ''{'', ''}'', ''['', '']'', '';'', '','', ''.''])"

subsection \<open>The regular expressions\<close>

text \<open>
  \<open>/\s/\<close> without the \<open>u\<close> flag matches the ECMAScript WhiteSpace and LineTerminator code
  units: TAB, LF, VT, FF, CR, SPACE, NBSP, U+1680, U+2000..U+200A, U+2028, U+2029, U+202F,
  U+205F, U+3000 and U+FEFF.
\<close>

definition is_space :: "code_unit \<Rightarrow> bool" where
  "is_space c \<longleftrightarrow>
     (0x09 \<le> c \<and> c \<le> 0x0D) \<or> c = 0x20 \<or> c = 0xA0 \<or> c = 0x1680 \<or>
     (0x2000 \<le> c \<and> c \<le> 0x200A) \<or> c = 0x2028 \<or> c = 0x2029 \<or> c = 0x202F \<or>
     c = 0x205F \<or> c = 0x3000 \<or> c = 0xFEFF"

definition is_digit :: "code_unit \<Rightarrow> bool" where   \<comment> \<open>\<open>/[0-9]/\<close>\<close>
  "is_digit c \<longleftrightarrow> 0x30 \<le> c \<and> c \<le> 0x39"

definition is_number_char :: "code_unit \<Rightarrow> bool" where   \<comment> \<open>\<open>/[0-9.]/\<close>\<close>
  "is_number_char c \<longleftrightarrow> is_digit c \<or> c = 0x2E"

definition is_ident_start :: "code_unit \<Rightarrow> bool" where   \<comment> \<open>\<open>/[a-zA-Z_]/\<close>\<close>
  "is_ident_start c \<longleftrightarrow> (0x61 \<le> c \<and> c \<le> 0x7A) \<or> (0x41 \<le> c \<and> c \<le> 0x5A) \<or> c = 0x5F"

definition is_ident_char :: "code_unit \<Rightarrow> bool" where   \<comment> \<open>\<open>/[a-zA-Z0-9_]/\<close>\<close>
  "is_ident_char c \<longleftrightarrow> is_ident_start c \<or> is_digit c"

subsection \<open>String primitives\<close>

text \<open>
  \<open>source.slice(a, b)\<close> for \<open>0 \<le> a\<close>: both ends are clamped to the length, and the
  result is empty when \<open>b \<le> a\<close>.
\<close>

definition slice_js :: "jsstring \<Rightarrow> nat \<Rightarrow> nat \<Rightarrow> jsstring" where
  "slice_js src a b = take (b - a) (drop a src)"

text \<open>
  \<open>source[i] === c\<close> for a one-unit string \<open>c\<close>: \<open>source[i]\<close> is \<open>undefined\<close> past the
  end, which equals no string.
\<close>

definition char_is :: "jsstring \<Rightarrow> nat \<Rightarrow> code_unit \<Rightarrow> bool" where
  "char_is src i c \<longleftrightarrow> i < length src \<and> src ! i = c"

section \<open>The scanner\<close>

text \<open>
  The local variables of \<open>tokenize\<close>: the cursor, the counters and the output array.
  The cursor is an index and never negative. The counters are JavaScript numbers; they
  stay integers far below \<open>2 ^ 53\<close>, so they are exact, and the column of a whitespace
  token can be zero or negative (line 73), so they are of type \<open>int\<close>.
\<close>

record scan_state =
  pos :: nat
  line :: int
  column :: int
  tokens :: "Token list"

text \<open>The whitespace loop (lines 60-68): every unit advances the cursor; a line feed
  increments \<open>line\<close> and resets \<open>column\<close>, any other unit increments \<open>column\<close>.\<close>

function ws_loop :: "jsstring \<Rightarrow> scan_state \<Rightarrow> scan_state" where
  "ws_loop src s =
     (if pos s < length src \<and> is_space (src ! pos s)
      then ws_loop src
             (if src ! pos s = LF
              then s\<lparr>pos := pos s + 1, line := line s + 1, column := 1\<rparr>
              else s\<lparr>pos := pos s + 1, column := column s + 1\<rparr>)
      else s)"
  by pat_completeness auto
termination
  by (relation "measure (\<lambda>(src, s). length src - pos s)") auto

text \<open>
  The loops of the comment, number and identifier branches (lines 82-85, 125-128 and
  142-145) are the same loop up to the test on \<open>source[pos]\<close>:
  \<open>while (pos < source.length && P(source[pos])) { pos++; column++; }\<close>.
\<close>

function advance_while :: "(code_unit \<Rightarrow> bool) \<Rightarrow> jsstring \<Rightarrow> scan_state \<Rightarrow> scan_state" where
  "advance_while P src s =
     (if pos s < length src \<and> P (src ! pos s)
      then advance_while P src (s\<lparr>pos := pos s + 1, column := column s + 1\<rparr>)
      else s)"
  by pat_completeness auto
termination
  by (relation "measure (\<lambda>(P, src, s). length src - pos s)") auto

text \<open>The string loop (lines 102-109): a backslash advances the cursor twice.\<close>

function str_loop :: "code_unit \<Rightarrow> jsstring \<Rightarrow> scan_state \<Rightarrow> scan_state" where
  "str_loop quote src s =
     (if pos s < length src \<and> src ! pos s \<noteq> quote
      then str_loop quote src
             (if src ! pos s = backslash
              then s\<lparr>pos := pos s + 2, column := column s + 2\<rparr>
              else s\<lparr>pos := pos s + 1, column := column s + 1\<rparr>)
      else s)"
  by pat_completeness auto
termination
  by (relation "measure (\<lambda>(quote, src, s). length src - pos s)") auto

declare ws_loop.simps [simp del] advance_while.simps [simp del] str_loop.simps [simp del]

text \<open>\<open>tokens.push(t)\<close>\<close>

definition push :: "Token \<Rightarrow> scan_state \<Rightarrow> scan_state" where
  "push t s = s\<lparr>tokens := tokens s @ [t]\<rparr>"

text \<open>The branches of the loop body, in the order of the source.\<close>

definition scan_whitespace :: "jsstring \<Rightarrow> scan_state \<Rightarrow> scan_state" where
  "scan_whitespace src s =
     (let start = pos s;
          s' = ws_loop src s
      in push \<lparr>tok_type = Whitespace, tok_value = slice_js src start (pos s'),
               tok_line = line s',
               tok_column = column s' - (int (pos s') - int start)\<rparr> s')"

definition scan_comment :: "jsstring \<Rightarrow> scan_state \<Rightarrow> scan_state" where
  "scan_comment src s =
     (let start = pos s; startCol = column s;
          s' = advance_while (\<lambda>c. c \<noteq> LF) src s
      in push \<lparr>tok_type = Comment, tok_value = slice_js src start (pos s'),
               tok_line = line s', tok_column = startCol\<rparr> s')"

definition scan_string :: "jsstring \<Rightarrow> scan_state \<Rightarrow> scan_state" where
  "scan_string src s =
     (let quote = src ! pos s; start = pos s; startCol = column s;
          s1 = s\<lparr>pos := pos s + 1, column := column s + 1\<rparr>;
          s2 = str_loop quote src s1;
          s3 = s2\<lparr>pos := pos s2 + 1, column := column s2 + 1\<rparr>
      in push \<lparr>tok_type = String, tok_value = slice_js src start (pos s3),
               tok_line = line s3, tok_column = startCol\<rparr> s3)"

definition scan_number :: "jsstring \<Rightarrow> scan_state \<Rightarrow> scan_state" where
  "scan_number src s =
     (let start = pos s; startCol = column s;
          s' = advance_while is_number_char src s
      in push \<lparr>tok_type = Number, tok_value = slice_js src start (pos s'),
               tok_line = line s', tok_column = startCol\<rparr> s')"

definition scan_identifier :: "jsstring \<Rightarrow> scan_state \<Rightarrow> scan_state" where
  "scan_identifier src s =
     (let start = pos s; startCol = column s;
          s' = advance_while is_ident_char src s;
          v = slice_js src start (pos s')
      in push \<lparr>tok_type = (if v \<in> KEYWORDS then Keyword else Identifier), tok_value = v,
               tok_line = line s', tok_column = startCol\<rparr> s')"

definition scan_two_char :: "jsstring \<Rightarrow> scan_state \<Rightarrow> scan_state" where
  "scan_two_char src s =
     (let twoChar = slice_js src (pos s) (pos s + 2);
          s' = push \<lparr>tok_type = Operator, tok_value = twoChar,
                     tok_line = line s, tok_column = column s\<rparr> s
      in s'\<lparr>pos := pos s + 2, column := column s + 2\<rparr>)"

definition scan_one_char :: "TokenType \<Rightarrow> jsstring \<Rightarrow> scan_state \<Rightarrow> scan_state" where
  "scan_one_char ty src s =
     (let s' = push \<lparr>tok_type = ty, tok_value = [src ! pos s],
                     tok_line = line s, tok_column = column s\<rparr> s
      in s'\<lparr>pos := pos s + 1, column := column s + 1\<rparr>)"

definition skip_unknown :: "scan_state \<Rightarrow> scan_state" where
  "skip_unknown s = s\<lparr>pos := pos s + 1, column := column s + 1\<rparr>"

text \<open>
  One iteration of the outer loop (lines 55-185), entered with \<open>pos < source.length\<close>;
  every \<open>continue\<close> ends the iteration.
\<close>

definition step :: "jsstring \<Rightarrow> scan_state \<Rightarrow> scan_state" where
  "step src s =
     (let char = src ! pos s in
      if is_space char then scan_whitespace src s
      else if char = slash \<and> char_is src (pos s + 1) slash then scan_comment src s
      else if char = dquote \<or> char = squote then scan_string src s
      else if is_digit char then scan_number src s
      else if is_ident_start char then scan_identifier src s
      else if pos s + 1 < length src \<and> slice_js src (pos s) (pos s + 2) \<in> OPERATORS
        then scan_two_char src s
      else if [char] \<in> OPERATORS then scan_one_char Operator src s
      else if [char] \<in> PUNCTUATION then scan_one_char Punctuation src s
      else skip_unknown s)"

text \<open>The outer loop (line 54) and \<open>tokenize\<close> itself.\<close>

function scan_loop :: "jsstring \<Rightarrow> scan_state \<Rightarrow> Token list" where
  "scan_loop src s = (if pos s < length src then scan_loop src (step src s) else tokens s)"
  by pat_completeness auto

definition initial :: scan_state where
  "initial = \<lparr>pos = 0, line = 1, column = 1, tokens = []\<rparr>"

definition tokenize :: "jsstring \<Rightarrow> Token list" where
  "tokenize source = scan_loop source initial"

subsection \<open>Discarded code units\<close>

text \<open>
  An iteration discards the unit at the cursor when none of the eight tests of the loop
  body holds (lines 183-185). \<open>skipped\<close> lists the indices discarded from a state on: the
  input contains no unrecognized character when the list from \<open>initial\<close> is empty.
\<close>

definition unrecognized :: "jsstring \<Rightarrow> scan_state \<Rightarrow> bool" where
  "unrecognized src s \<longleftrightarrow>
     (let char = src ! pos s in
      \<not> is_space char \<and>
      \<not> (char = slash \<and> char_is src (pos s + 1) slash) \<and>
      \<not> (char = dquote \<or> char = squote) \<and>
      \<not> is_digit char \<and>
      \<not> is_ident_start char \<and>
      \<not> (pos s + 1 < length src \<and> slice_js src (pos s) (pos s + 2) \<in> OPERATORS) \<and>
      [char] \<notin> OPERATORS \<and>
      [char] \<notin> PUNCTUATION)"

function skipped :: "jsstring \<Rightarrow> scan_state \<Rightarrow> nat list" where
  "skipped src s =
     (if pos s < length src
      then (if unrecognized src s then [pos s] else []) @ skipped src (step src s)
      else [])"
  by pat_completeness auto

section \<open>The filters\<close>

definition stripComments :: "Token list \<Rightarrow> Token list" where
  "stripComments toks = filter (\<lambda>t. tok_type t \<noteq> Comment) toks"

definition stripWhitespace :: "Token list \<Rightarrow> Token list" where
  "stripWhitespace toks = filter (\<lambda>t. tok_type t \<noteq> Whitespace) toks"

section \<open>Reference functions for the statements\<close>

text \<open>
  The text of a string literal after its opening delimiter \<open>q\<close>, in the words of the
  specification (section 4.1, rule 3) and read off the remaining input, not the cursor:
  units are taken until \<open>q\<close> is seen again, which is taken too; a backslash takes the
  unit after it, whatever it is; the end of the input ends the literal.
\<close>

fun literal_body :: "code_unit \<Rightarrow> jsstring \<Rightarrow> jsstring" where
  "literal_body q [] = []"
| "literal_body q (c # cs) =
     (if c = q then [c]
      else if c = backslash
        then (case cs of [] \<Rightarrow> [c] | d # ds \<Rightarrow> c # d # literal_body q ds)
      else c # literal_body q cs)"

text \<open>The column counter after a whitespace run, from the counter before it.\<close>

fun ws_column :: "int \<Rightarrow> jsstring \<Rightarrow> int" where
  "ws_column col [] = col"
| "ws_column col (c # cs) = ws_column (if c = LF then 1 else col + 1) cs"

text \<open>The line feeds in the text of the tokens that are not string literals.\<close>

definition outside_LF :: "Token list \<Rightarrow> int" where
  "outside_LF ts =
     int (count_list (concat (map tok_value (filter (\<lambda>t. tok_type t \<noteq> String) ts))) LF)"

text \<open>
  The cursor advance of the string loop over the input that remains after the opening
  delimiter: it can pass the end of the input by one when a backslash is the last unit.
\<close>

fun literal_advance :: "code_unit \<Rightarrow> jsstring \<Rightarrow> nat" where
  "literal_advance q [] = 0"
| "literal_advance q (c # cs) =
     (if c = q then 0
      else if c = backslash then 2 + literal_advance q (tl cs)
      else 1 + literal_advance q cs)"

text \<open>
  What an iteration that emits a token does to the state: one token is appended, its text
  is the slice between the old and the new cursor, its line is the line counter after
  the iteration, and the line counter has grown by the line feeds of the text unless the
  token is a string literal.
\<close>

definition emitted :: "jsstring \<Rightarrow> scan_state \<Rightarrow> scan_state \<Rightarrow> bool" where
  "emitted src s s' \<longleftrightarrow>
     (\<exists>t. tokens s' = tokens s @ [t] \<and>
          tok_value t = slice_js src (pos s) (pos s') \<and>
          tok_line t = line s' \<and>
          line s' = line s + (if tok_type t = String then 0 else int (count_list (tok_value t) LF)))"

text \<open>The line field of every token counts the line feeds outside string literals up to
  and including the token.\<close>

definition lines_ok :: "Token list \<Rightarrow> bool" where
  "lines_ok ts \<longleftrightarrow> (\<forall>i<length ts. tok_line (ts ! i) = 1 + outside_LF (take (Suc i) ts))"

text \<open>
  The position of the unit at offset \<open>i\<close>: the line is one more than the line feeds
  before it, the column one more than the units since the last line feed.
\<close>

definition line_of :: "jsstring \<Rightarrow> nat \<Rightarrow> int" where
  "line_of src i = 1 + int (count_list (take i src) LF)"

definition column_of :: "jsstring \<Rightarrow> nat \<Rightarrow> int" where
  "column_of src i = 1 + int (length (takeWhile (\<lambda>c. c \<noteq> LF) (rev (take i src))))"

section \<open>The inner loops in closed form\<close>

lemma advance_while_eq:
  "advance_while P src s =
     s\<lparr>pos := pos s + length (takeWhile P (drop (pos s) src)),
       column := column s + int (length (takeWhile P (drop (pos s) src)))\<rparr>"
proof (induction P src s rule: advance_while.induct)
  case (1 P src s)
  show ?case
  proof (cases "pos s < length src \<and> P (src ! pos s)")
    case True
    then have d: "drop (pos s) src = src ! pos s # drop (Suc (pos s)) src"
      by (simp add: Cons_nth_drop_Suc)
    from True "1.IH" show ?thesis
      by (subst advance_while.simps) (simp add: d)
  next
    case False
    then have "takeWhile P (drop (pos s) src) = []"
      by (cases "pos s < length src") (simp_all add: Cons_nth_drop_Suc [symmetric])
    with False show ?thesis
      by (subst advance_while.simps) auto
  qed
qed

lemma slice_takeWhile:
  "slice_js src p (p + length (takeWhile P (drop p src))) = takeWhile P (drop p src)"
  by (simp add: slice_js_def takeWhile_eq_take [symmetric])

lemma ws_loop_eq:
  "ws_loop src s =
     s\<lparr>pos := pos s + length (takeWhile is_space (drop (pos s) src)),
       line := line s + int (count_list (takeWhile is_space (drop (pos s) src)) LF),
       column := ws_column (column s) (takeWhile is_space (drop (pos s) src))\<rparr>"
proof (induction src s rule: ws_loop.induct)
  case (1 src s)
  show ?case
  proof (cases "pos s < length src \<and> is_space (src ! pos s)")
    case True
    then have d: "drop (pos s) src = src ! pos s # drop (Suc (pos s)) src"
      by (simp add: Cons_nth_drop_Suc)
    show ?thesis
    proof (cases "src ! pos s = LF")
      case lf: True
      with True "1.IH" show ?thesis
        by (subst ws_loop.simps) (simp add: d)
    next
      case nlf: False
      with True "1.IH" show ?thesis
        by (subst ws_loop.simps) (simp add: d)
    qed
  next
    case False
    then have "takeWhile is_space (drop (pos s) src) = []"
      by (cases "pos s < length src") (simp_all add: Cons_nth_drop_Suc [symmetric])
    with False show ?thesis
      by (subst ws_loop.simps) auto
  qed
qed

lemma str_loop_fields:
  "line (str_loop q src s) = line s \<and> tokens (str_loop q src s) = tokens s \<and>
   pos s \<le> pos (str_loop q src s) \<and>
   column (str_loop q src s) = column s + (int (pos (str_loop q src s)) - int (pos s))"
proof (induction q src s rule: str_loop.induct)
  case (1 q src s)
  show ?case
  proof (cases "pos s < length src \<and> src ! pos s \<noteq> q")
    case True
    with "1.IH" show ?thesis
      by (subst (1 2 3 4 5) str_loop.simps) (simp split: if_splits)
  next
    case False
    then show ?thesis
      by (subst (1 2 3 4 5) str_loop.simps) auto
  qed
qed

lemma slice_Cons:
  assumes "a < length src" "a < b"
  shows "slice_js src a b = src ! a # slice_js src (Suc a) b"
proof -
  from assms(2) obtain k where k: "b - a = Suc k" "b - Suc a = k"
    by (cases "b - a") auto
  with assms(1) show ?thesis
    by (simp add: slice_js_def Cons_nth_drop_Suc [symmetric])
qed

lemma str_loop_slice:
  "slice_js src (pos s) (pos (str_loop q src s) + 1) = literal_body q (drop (pos s) src)"
proof (induction q src s rule: str_loop.induct)
  case (1 q src s)
  show ?case
  proof (cases "pos s < length src")
    case False
    then show ?thesis
      by (subst str_loop.simps) (simp add: slice_js_def)
  next
    case True
    then have d: "drop (pos s) src = src ! pos s # drop (Suc (pos s)) src"
      by (simp add: Cons_nth_drop_Suc)
    show ?thesis
    proof (cases "src ! pos s = q")
      case q: True
      with True show ?thesis
        by (subst str_loop.simps) (simp add: slice_js_def d)
    next
      case nq: False
      show ?thesis
      proof (cases "src ! pos s = backslash")
        case nb: False
        let ?s1 = "s\<lparr>pos := pos s + 1, column := column s + 1\<rparr>"
        have r: "str_loop q src s = str_loop q src ?s1"
          using True nq nb by (subst str_loop.simps) simp
        have le: "pos ?s1 \<le> pos (str_loop q src ?s1)"
          using str_loop_fields [of q src ?s1] by blast
        have ih: "slice_js src (pos ?s1) (pos (str_loop q src ?s1) + 1) = literal_body q (drop (pos ?s1) src)"
          using "1.IH" True nq nb by simp
        have "slice_js src (pos s) (pos (str_loop q src ?s1) + 1)
              = src ! pos s # slice_js src (pos ?s1) (pos (str_loop q src ?s1) + 1)"
          using le True by (simp add: slice_Cons)
        with ih r nq nb show ?thesis
          by (simp add: d)
      next
        case b: True
        let ?s2 = "s\<lparr>pos := pos s + 2, column := column s + 2\<rparr>"
        have r: "str_loop q src s = str_loop q src ?s2"
          using True nq b by (subst str_loop.simps) simp
        have le: "pos ?s2 \<le> pos (str_loop q src ?s2)"
          using str_loop_fields [of q src ?s2] by blast
        have ih: "slice_js src (pos ?s2) (pos (str_loop q src ?s2) + 1) = literal_body q (drop (pos ?s2) src)"
          using "1.IH" True nq b by simp
        show ?thesis
        proof (cases "Suc (pos s) < length src")
          case False
          with True have e: "drop (Suc (pos s)) src = []" by simp
          have "str_loop q src ?s2 = ?s2"
            using False by (subst str_loop.simps) simp
          with r nq b show ?thesis
            by (simp add: slice_js_def d e)
        next
          case n: True
          then have d2: "drop (Suc (pos s)) src = src ! Suc (pos s) # drop (Suc (Suc (pos s))) src"
            by (simp add: Cons_nth_drop_Suc)
          have "slice_js src (pos s) (pos (str_loop q src ?s2) + 1)
                = src ! pos s # src ! Suc (pos s) # slice_js src (pos ?s2) (pos (str_loop q src ?s2) + 1)"
            using le True n by (simp add: slice_Cons)
          with ih r nq b show ?thesis
            by (simp add: d d2)
        qed
      qed
    qed
  qed
qed

subsection \<open>Fields after each loop\<close>

lemma takeWhile_head: "p < length src \<Longrightarrow> P (src ! p) \<Longrightarrow> 0 < length (takeWhile P (drop p src))"
  by (simp add: Cons_nth_drop_Suc [symmetric])

lemma pos_push [simp]: "pos (push t s) = pos s" "line (push t s) = line s"
  "column (push t s) = column s" "tokens (push t s) = tokens s @ [t]"
  by (simp_all add: push_def)

lemma ws_loop_pos: "pos (ws_loop src s) = pos s + length (takeWhile is_space (drop (pos s) src))"
  by (subst ws_loop_eq) simp
lemma advance_while_pos: "pos (advance_while P src s) = pos s + length (takeWhile P (drop (pos s) src))"
  by (subst advance_while_eq) simp
lemma str_loop_tokens: "tokens (str_loop q src s) = tokens s"
  using str_loop_fields [of q src s] by simp
lemma str_loop_line: "line (str_loop q src s) = line s"
  using str_loop_fields [of q src s] by simp
lemma str_loop_pos_le: "pos s \<le> pos (str_loop q src s)"
  using str_loop_fields [of q src s] by simp
lemma str_loop_column: "column (str_loop q src s) = column s + (int (pos (str_loop q src s)) - int (pos s))"
  using str_loop_fields [of q src s] by simp

lemma scan_whitespace_pos: "pos s < length src \<Longrightarrow> is_space (src ! pos s) \<Longrightarrow> pos s < pos (scan_whitespace src s)"
  using takeWhile_head [of "pos s" src is_space]
  by (simp add: scan_whitespace_def Let_def ws_loop_pos)

lemma scan_comment_pos: "pos s < length src \<Longrightarrow> src ! pos s = slash \<Longrightarrow> pos s < pos (scan_comment src s)"
  using takeWhile_head [of "pos s" src "\<lambda>c. c \<noteq> LF"]
  by (simp add: scan_comment_def Let_def advance_while_pos)

lemma scan_string_pos: "pos s < pos (scan_string src s)"
  using str_loop_pos_le [of "s\<lparr>pos := pos s + 1, column := column s + 1\<rparr>" "src ! pos s" src]
  by (simp add: scan_string_def Let_def)

lemma scan_number_pos: "pos s < length src \<Longrightarrow> is_digit (src ! pos s) \<Longrightarrow> pos s < pos (scan_number src s)"
  using takeWhile_head [of "pos s" src is_number_char]
  by (simp add: scan_number_def Let_def advance_while_pos is_number_char_def)

lemma scan_identifier_pos: "pos s < length src \<Longrightarrow> is_ident_start (src ! pos s) \<Longrightarrow> pos s < pos (scan_identifier src s)"
  using takeWhile_head [of "pos s" src is_ident_char]
  by (simp add: scan_identifier_def Let_def advance_while_pos is_ident_char_def)

lemma step_advances: "pos s < length src \<Longrightarrow> pos s < pos (step src s)"
  by (simp add: step_def Let_def scan_whitespace_pos scan_comment_pos scan_string_pos
      scan_number_pos scan_identifier_pos scan_two_char_def scan_one_char_def skip_unknown_def)


section \<open>Termination of the outer loop\<close>

termination scan_loop
  by (relation "measure (\<lambda>(src, s). length src - pos s)") (use step_advances in \<open>auto intro: diff_less_mono2\<close>)

termination skipped
  by (relation "measure (\<lambda>(src, s). length src - pos s)") (use step_advances in \<open>auto intro: diff_less_mono2\<close>)

declare scan_loop.simps [simp del] skipped.simps [simp del]

text \<open>Unfolding sets for evaluating the scanner on a concrete input.\<close>

lemmas char_defs = is_space_def is_digit_def is_number_char_def is_ident_start_def
  is_ident_char_def KEYWORDS_def OPERATORS_def PUNCTUATION_def js_def

lemmas scan_defs = step_def scan_whitespace_def scan_comment_def scan_string_def
  scan_number_def scan_identifier_def scan_two_char_def scan_one_char_def skip_unknown_def
  push_def slice_js_def char_is_def initial_def tokenize_def unrecognized_def

lemmas loop_simps = ws_loop.simps advance_while.simps str_loop.simps scan_loop.simps
  skipped.simps

lemma scan_loop_iterates:
  "\<exists>k\<le>length src - pos s. length src \<le> pos ((step src ^^ k) s) \<and>
      scan_loop src s = tokens ((step src ^^ k) s) \<and>
      (\<forall>j<k. pos ((step src ^^ j) s) < length src \<and>
              pos ((step src ^^ j) s) < pos ((step src ^^ Suc j) s))"
proof (induction src s rule: scan_loop.induct)
  case (1 src s)
  show ?case
  proof (cases "pos s < length src")
    case False
    then have "scan_loop src s = tokens s"
      by (subst scan_loop.simps) simp
    with False show ?thesis
      by (intro exI [of _ 0]) simp
  next
    case True
    from "1.IH" [OF True] obtain k where
      k: "k \<le> length src - pos (step src s)"
         "length src \<le> pos ((step src ^^ k) (step src s))"
         "scan_loop src (step src s) = tokens ((step src ^^ k) (step src s))"
         "\<forall>j<k. pos ((step src ^^ j) (step src s)) < length src \<and>
              pos ((step src ^^ j) (step src s)) < pos ((step src ^^ Suc j) (step src s))"
      by blast
    have adv: "pos s < pos (step src s)"
      using True by (rule step_advances)
    have sw: "\<And>j. (step src ^^ j) (step src s) = (step src ^^ Suc j) s"
      by (simp add: funpow_swap1)
    have r: "scan_loop src s = scan_loop src (step src s)"
      using True by (subst scan_loop.simps) simp
    have "Suc k \<le> length src - pos s"
      using k(1) adv True by linarith
    moreover have "length src \<le> pos ((step src ^^ Suc k) s)"
      using k(2) by (simp only: sw)
    moreover have "scan_loop src s = tokens ((step src ^^ Suc k) s)"
      using k(3) r by (simp only: sw)
    moreover have "\<forall>j<Suc k. pos ((step src ^^ j) s) < length src \<and>
              pos ((step src ^^ j) s) < pos ((step src ^^ Suc j) s)"
    proof (intro allI impI)
      fix j assume j: "j < Suc k"
      show "pos ((step src ^^ j) s) < length src \<and>
              pos ((step src ^^ j) s) < pos ((step src ^^ Suc j) s)"
      proof (cases j)
        case 0
        with True adv show ?thesis by simp
      next
        case (Suc i)
        with j have "i < k" by simp
        with k(4) have "pos ((step src ^^ i) (step src s)) < length src \<and>
              pos ((step src ^^ i) (step src s)) < pos ((step src ^^ Suc i) (step src s))"
          by blast
        then show ?thesis
          unfolding Suc sw .
      qed
    qed
    ultimately show ?thesis
      by blast
  qed
qed

section \<open>The branches of the loop body\<close>

lemma scan_comment_eq:
  "scan_comment src s =
     (let c = takeWhile (\<lambda>c. c \<noteq> LF) (drop (pos s) src)
      in s\<lparr>pos := pos s + length c, column := column s + int (length c),
           tokens := tokens s @
             [\<lparr>tok_type = Comment, tok_value = c, tok_line = line s, tok_column = column s\<rparr>]\<rparr>)"
  by (simp add: scan_comment_def Let_def advance_while_eq push_def slice_takeWhile)

lemma scan_number_eq:
  "scan_number src s =
     (let v = takeWhile is_number_char (drop (pos s) src)
      in s\<lparr>pos := pos s + length v, column := column s + int (length v),
           tokens := tokens s @
             [\<lparr>tok_type = Number, tok_value = v, tok_line = line s, tok_column = column s\<rparr>]\<rparr>)"
  by (simp add: scan_number_def Let_def advance_while_eq push_def slice_takeWhile)

lemma scan_identifier_eq:
  "scan_identifier src s =
     (let v = takeWhile is_ident_char (drop (pos s) src)
      in s\<lparr>pos := pos s + length v, column := column s + int (length v),
           tokens := tokens s @
             [\<lparr>tok_type = (if v \<in> KEYWORDS then Keyword else Identifier), tok_value = v,
               tok_line = line s, tok_column = column s\<rparr>]\<rparr>)"
  by (simp add: scan_identifier_def Let_def advance_while_eq push_def slice_takeWhile)

lemma scan_whitespace_eq:
  "scan_whitespace src s =
     (let w = takeWhile is_space (drop (pos s) src)
      in s\<lparr>pos := pos s + length w,
           line := line s + int (count_list w LF),
           column := ws_column (column s) w,
           tokens := tokens s @
             [\<lparr>tok_type = Whitespace, tok_value = w,
               tok_line = line s + int (count_list w LF),
               tok_column = ws_column (column s) w - int (length w)\<rparr>]\<rparr>)"
  by (simp add: scan_whitespace_def Let_def ws_loop_eq push_def slice_takeWhile)

lemma ident_start_class:
  "is_ident_start c \<Longrightarrow> \<not> is_space c \<and> c \<noteq> slash \<and> c \<noteq> dquote \<and> c \<noteq> squote \<and> \<not> is_digit c"
  unfolding is_ident_start_def is_space_def is_digit_def by unat_arith

lemma number_char_not_LF: "is_number_char c \<Longrightarrow> c \<noteq> LF"
  unfolding is_number_char_def is_digit_def by unat_arith

lemma ident_char_not_LF: "is_ident_char c \<Longrightarrow> c \<noteq> LF"
  unfolding is_ident_char_def is_ident_start_def is_digit_def by unat_arith

lemma LF_is_space: "is_space LF"
  by (simp add: is_space_def)

lemma two_char_operators:
  "[a, b] \<in> OPERATORS \<longleftrightarrow>
     (a = 0x3D \<or> a = 0x21 \<or> a = 0x3C \<or> a = 0x3E) \<and> b = 0x3D \<or>
     a = 0x26 \<and> b = 0x26 \<or> a = 0x7C \<and> b = 0x7C"
  by (auto simp add: OPERATORS_def js_def)

lemma one_char_operators:
  "[a] \<in> OPERATORS \<longleftrightarrow> a \<in> {0x2B, 0x2D, 0x2A, 0x2F, 0x3D, 0x3C, 0x3E}"
  by (auto simp add: OPERATORS_def js_def)

lemma punctuation_chars:
  "[a] \<in> PUNCTUATION \<longleftrightarrow> a \<in> {0x28, 0x29, 0x7B, 0x7D, 0x5B, 0x5D, 0x3B, 0x2C, 0x2E}"
  by (auto simp add: PUNCTUATION_def js_def)

lemma slice_two:
  assumes "Suc p < length src"
  shows "slice_js src p (Suc (Suc p)) = [src ! p, src ! Suc p]"
proof -
  have "slice_js src p (Suc (Suc p)) = src ! p # slice_js src (Suc p) (Suc (Suc p))"
    using assms by (intro slice_Cons) simp_all
  also have "slice_js src (Suc p) (Suc (Suc p)) = src ! Suc p # slice_js src (Suc (Suc p)) (Suc (Suc p))"
    using assms by (intro slice_Cons) simp_all
  also have "slice_js src (Suc (Suc p)) (Suc (Suc p)) = []"
    by (simp add: slice_js_def)
  finally show ?thesis .
qed

lemma step_identifier:
  assumes "pos s < length src" "is_ident_start (src ! pos s)"
  shows "step src s = scan_identifier src s"
  using ident_start_class [OF assms(2)] assms(2)
  by (simp add: step_def Let_def)

lemma op2_first_class:
  "[a, b] \<in> OPERATORS \<Longrightarrow>
     \<not> is_space a \<and> a \<noteq> slash \<and> a \<noteq> dquote \<and> a \<noteq> squote \<and> \<not> is_digit a \<and> \<not> is_ident_start a"
  by (auto simp add: two_char_operators is_space_def is_digit_def is_ident_start_def)

lemma step_two_char:
  assumes "pos s + 1 < length src" and "[src ! pos s, src ! (pos s + 1)] \<in> OPERATORS"
  shows "step src s = scan_two_char src s"
  using assms op2_first_class [OF assms(2)]
  by (simp add: step_def Let_def slice_two)

lemma bang_class:
  "\<not> is_space 0x21 \<and> \<not> is_digit 0x21 \<and> \<not> is_ident_start 0x21 \<and>
   [0x21] \<notin> OPERATORS \<and> [0x21] \<notin> PUNCTUATION"
  by (simp add: is_space_def is_digit_def is_ident_start_def one_char_operators punctuation_chars)

lemma takeWhile_stop:
  "p + length (takeWhile P (drop p src)) < length src \<Longrightarrow>
   \<not> P (src ! (p + length (takeWhile P (drop p src))))"
proof -
  assume a: "p + length (takeWhile P (drop p src)) < length src"
  let ?n = "length (takeWhile P (drop p src))"
  from a have "?n < length (drop p src)" by simp
  then have "\<not> P (drop p src ! ?n)"
    by (rule nth_length_takeWhile)
  with a show ?thesis by simp
qed

lemma step_whitespace: "is_space (src ! pos s) \<Longrightarrow> step src s = scan_whitespace src s"
  by (simp add: step_def Let_def)

lemma step_comment:
  "src ! pos s = slash \<Longrightarrow> char_is src (pos s + 1) slash \<Longrightarrow> step src s = scan_comment src s"
  by (simp add: step_def Let_def is_space_def)

lemma slash_class:
  "\<not> is_space slash \<and> \<not> is_digit slash \<and> \<not> is_ident_start slash \<and> [slash] \<in> OPERATORS \<and>
   (\<forall>d. [slash, d] \<notin> OPERATORS)"
  by (simp add: is_space_def is_digit_def is_ident_start_def one_char_operators two_char_operators)

lemma step_slash_operator:
  assumes "pos s < length src" "src ! pos s = slash" "\<not> char_is src (pos s + 1) slash"
  shows "step src s = scan_one_char Operator src s"
proof -
  have "\<not> (pos s + 1 < length src \<and> slice_js src (pos s) (pos s + 2) \<in> OPERATORS)"
    using assms(2) slash_class by (auto simp add: slice_two)
  with assms slash_class show ?thesis
    by (auto simp add: step_def Let_def)
qed

section \<open>String literals, emitted tokens and the line counter\<close>

lemma str_loop_stop:
  "pos (str_loop q src s) < length src \<Longrightarrow> src ! pos (str_loop q src s) = q"
proof (induction q src s rule: str_loop.induct)
  case (1 q src s)
  show ?case
  proof (cases "pos s < length src \<and> src ! pos s \<noteq> q")
    case True
    let ?n = "if src ! pos s = backslash
              then s\<lparr>pos := pos s + 2, column := column s + 2\<rparr>
              else s\<lparr>pos := pos s + 1, column := column s + 1\<rparr>"
    have r: "str_loop q src s = str_loop q src ?n"
      using True by (subst str_loop.simps) simp
    from "1.prems" have "pos (str_loop q src ?n) < length src"
      by (simp only: r)
    with "1.IH" True have "src ! pos (str_loop q src ?n) = q"
      by blast
    then show ?thesis
      by (simp only: r)
  next
    case False
    then have r: "str_loop q src s = s"
      by (subst str_loop.simps) auto
    from "1.prems" False show ?thesis
      by (auto simp add: r)
  qed
qed

lemma slice_to_end: "length src \<le> b \<Longrightarrow> slice_js src a b = drop a src"
  by (simp add: slice_js_def)

lemma slice_one: "p < length src \<Longrightarrow> slice_js src p (Suc p) = [src ! p]"
  by (simp add: slice_Cons) (simp add: slice_js_def)

lemma slice_append_drop: "a \<le> b \<Longrightarrow> slice_js src a b @ drop b src = drop a src"
proof -
  assume "a \<le> b"
  then have "drop b src = drop (b - a) (drop a src)"
    by simp
  then show ?thesis
    by (simp only: slice_js_def append_take_drop_id)
qed

lemma step_string:
  "src ! pos s = dquote \<or> src ! pos s = squote \<Longrightarrow> step src s = scan_string src s"
  by (auto simp add: step_def Let_def is_space_def)

lemma scan_string_fields:
  "tokens (scan_string src s) = tokens s @
     [\<lparr>tok_type = String, tok_value = slice_js src (pos s) (pos (scan_string src s)),
       tok_line = line s, tok_column = column s\<rparr>] \<and>
   line (scan_string src s) = line s \<and>
   column (scan_string src s) = column s + (int (pos (scan_string src s)) - int (pos s)) \<and>
   pos (scan_string src s) =
     Suc (pos (str_loop (src ! pos s) src (s\<lparr>pos := pos s + 1, column := column s + 1\<rparr>)))"
  using str_loop_pos_le [of "s\<lparr>pos := pos s + 1, column := column s + 1\<rparr>" "src ! pos s" src]
  by (simp add: scan_string_def Let_def str_loop_tokens str_loop_line str_loop_column)

lemma count_LF_takeWhile: "(\<And>c. P c \<Longrightarrow> c \<noteq> LF) \<Longrightarrow> count_list (takeWhile P xs) LF = 0"
  by (auto simp add: count_list_0_iff dest: set_takeWhileD)

lemma emitted_whitespace: "emitted src s (scan_whitespace src s)"
  by (simp add: emitted_def scan_whitespace_eq Let_def slice_takeWhile)

lemma emitted_comment: "emitted src s (scan_comment src s)"
  by (simp add: emitted_def scan_comment_eq Let_def slice_takeWhile count_LF_takeWhile)

lemma emitted_string: "emitted src s (scan_string src s)"
  using scan_string_fields [of src s] by (simp add: emitted_def)

lemma emitted_number: "emitted src s (scan_number src s)"
  by (simp add: emitted_def scan_number_eq Let_def slice_takeWhile count_LF_takeWhile
      number_char_not_LF)

lemma emitted_identifier: "emitted src s (scan_identifier src s)"
  by (simp add: emitted_def scan_identifier_eq Let_def slice_takeWhile count_LF_takeWhile
      ident_char_not_LF)

lemma emitted_two_char:
  assumes "pos s + 1 < length src" "slice_js src (pos s) (pos s + 2) \<in> OPERATORS"
  shows "emitted src s (scan_two_char src s)"
proof -
  have v: "slice_js src (pos s) (pos s + 2) = [src ! pos s, src ! Suc (pos s)]"
    using assms(1) by (simp add: slice_two)
  with assms(2) have "src ! pos s \<noteq> LF \<and> src ! Suc (pos s) \<noteq> LF"
    by (auto simp add: two_char_operators)
  then show ?thesis
    using v by (simp add: emitted_def scan_two_char_def Let_def push_def)
qed

lemma emitted_one_char:
  assumes "pos s < length src" "\<not> is_space (src ! pos s)"
  shows "emitted src s (scan_one_char ty src s)"
proof -
  from assms(2) have "src ! pos s \<noteq> LF"
    using LF_is_space by auto
  then show ?thesis
    using assms(1) by (simp add: emitted_def scan_one_char_def Let_def push_def slice_one)
qed

lemma step_emitted:
  assumes "pos s < length src" "\<not> unrecognized src s"
  shows "emitted src s (step src s)"
  using assms
  by (auto simp add: step_def unrecognized_def Let_def emitted_whitespace emitted_comment
      emitted_string emitted_number emitted_identifier emitted_two_char emitted_one_char)

lemma step_unrecognized:
  "unrecognized src s \<Longrightarrow> step src s = s\<lparr>pos := pos s + 1, column := column s + 1\<rparr>"
  by (auto simp add: step_def unrecognized_def Let_def skip_unknown_def)

lemma scan_loop_lossless:
  "skipped src s = [] \<Longrightarrow>
   concat (map tok_value (scan_loop src s)) = concat (map tok_value (tokens s)) @ drop (pos s) src"
proof (induction src s rule: scan_loop.induct)
  case (1 src s)
  show ?case
  proof (cases "pos s < length src")
    case False
    then show ?thesis
      by (subst scan_loop.simps) simp
  next
    case True
    have "skipped src s =
            (if unrecognized src s then [pos s] else []) @ skipped src (step src s)"
      using True by (subst skipped.simps) simp
    with "1.prems" have nu: "\<not> unrecognized src s" and sk: "skipped src (step src s) = []"
      by (simp_all split: if_splits)
    from step_emitted [OF True nu] obtain t where
      t: "tokens (step src s) = tokens s @ [t]"
         "tok_value t = slice_js src (pos s) (pos (step src s))"
      unfolding emitted_def by blast
    have adv: "pos s \<le> pos (step src s)"
      using step_advances [OF True] by simp
    have "concat (map tok_value (scan_loop src s)) =
          concat (map tok_value (scan_loop src (step src s)))"
      using True by (subst scan_loop.simps) simp
    also have "\<dots> = concat (map tok_value (tokens (step src s))) @ drop (pos (step src s)) src"
      using "1.IH" [OF True sk] .
    also have "\<dots> = concat (map tok_value (tokens s)) @
                    (slice_js src (pos s) (pos (step src s)) @ drop (pos (step src s)) src)"
      by (simp add: t)
    also have "\<dots> = concat (map tok_value (tokens s)) @ drop (pos s) src"
      using adv by (simp only: slice_append_drop)
    finally show ?thesis .
  qed
qed

lemma str_loop_eq:
  "str_loop q src s =
     s\<lparr>pos := pos s + literal_advance q (drop (pos s) src),
       column := column s + int (literal_advance q (drop (pos s) src))\<rparr>"
proof (induction q src s rule: str_loop.induct)
  case (1 q src s)
  show ?case
  proof (cases "pos s < length src \<and> src ! pos s \<noteq> q")
    case False
    then have "literal_advance q (drop (pos s) src) = 0"
      by (cases "pos s < length src") (simp_all add: Cons_nth_drop_Suc [symmetric])
    with False show ?thesis
      by (subst str_loop.simps) auto
  next
    case True
    then have d: "drop (pos s) src = src ! pos s # drop (Suc (pos s)) src"
      by (simp add: Cons_nth_drop_Suc)
    have tl: "tl (drop (Suc (pos s)) src) = drop (Suc (Suc (pos s))) src"
      by (simp add: drop_Suc tl_drop)
    show ?thesis
    proof (cases "src ! pos s = backslash")
      case b: True
      with True "1.IH" show ?thesis
        by (subst str_loop.simps) (simp add: d tl)
    next
      case nb: False
      with True "1.IH" show ?thesis
        by (subst str_loop.simps) (simp add: d)
    qed
  qed
qed

lemma scan_string_eq:
  "scan_string src s =
     (let n = Suc (Suc (literal_advance (src ! pos s) (drop (Suc (pos s)) src)))
      in s\<lparr>pos := pos s + n, column := column s + int n,
           tokens := tokens s @
             [\<lparr>tok_type = String, tok_value = slice_js src (pos s) (pos s + n),
               tok_line = line s, tok_column = column s\<rparr>]\<rparr>)"
  by (simp add: scan_string_def Let_def str_loop_eq push_def)

text \<open>Evaluation through the closed forms.\<close>

lemmas scan_eval = step_def scan_whitespace_eq scan_comment_eq scan_string_eq scan_number_eq
  scan_identifier_eq scan_two_char_def scan_one_char_def skip_unknown_def push_def
  slice_js_def char_is_def initial_def tokenize_def unrecognized_def Let_def
  scan_loop.simps skipped.simps

lemma outside_LF_snoc:
  "outside_LF (ts @ [t]) =
     outside_LF ts + (if tok_type t = String then 0 else int (count_list (tok_value t) LF))"
  by (simp add: outside_LF_def)

lemma lines_ok_snoc:
  assumes "lines_ok ts" and "tok_line t = 1 + outside_LF (ts @ [t])"
  shows "lines_ok (ts @ [t])"
  unfolding lines_ok_def
proof (intro allI impI)
  fix i assume i: "i < length (ts @ [t])"
  show "tok_line ((ts @ [t]) ! i) = 1 + outside_LF (take (Suc i) (ts @ [t]))"
  proof (cases "i < length ts")
    case True
    with assms(1) show ?thesis
      by (simp add: lines_ok_def nth_append)
  next
    case False
    with i have "i = length ts" by simp
    with assms(2) show ?thesis by simp
  qed
qed

lemma step_lines:
  assumes "pos s < length src" "lines_ok (tokens s)" "line s = 1 + outside_LF (tokens s)"
  shows "lines_ok (tokens (step src s)) \<and> line (step src s) = 1 + outside_LF (tokens (step src s))"
proof (cases "unrecognized src s")
  case True
  then have "step src s = s\<lparr>pos := pos s + 1, column := column s + 1\<rparr>"
    by (rule step_unrecognized)
  with assms show ?thesis by simp
next
  case False
  from step_emitted [OF assms(1) False] obtain t where
    t: "tokens (step src s) = tokens s @ [t]" "tok_line t = line (step src s)"
       "line (step src s) =
          line s + (if tok_type t = String then 0 else int (count_list (tok_value t) LF))"
    unfolding emitted_def by blast
  have l: "line (step src s) = 1 + outside_LF (tokens s @ [t])"
    using t(3) assms(3) by (simp add: outside_LF_snoc)
  with assms(2) t(2) have "lines_ok (tokens s @ [t])"
    by (intro lines_ok_snoc) simp_all
  with l t(1) show ?thesis by simp
qed

lemma scan_loop_lines:
  "lines_ok (tokens s) \<Longrightarrow> line s = 1 + outside_LF (tokens s) \<Longrightarrow> lines_ok (scan_loop src s)"
proof (induction src s rule: scan_loop.induct)
  case (1 src s)
  show ?case
  proof (cases "pos s < length src")
    case False
    with "1.prems" show ?thesis
      by (subst scan_loop.simps) simp
  next
    case True
    from step_lines [OF True "1.prems"] "1.IH" [OF True]
    have "lines_ok (scan_loop src (step src s))"
      by blast
    with True show ?thesis
      by (subst scan_loop.simps) simp
  qed
qed

section \<open>The claims\<close>

subsection \<open>C1: losslessness\<close>

text \<open>
  C1. When the scan of \<open>src\<close> discards no unit, the texts of the tokens of
  \<open>tokenize src\<close>, concatenated in order, are \<open>src\<close>; and \<open>tokenize ""\<close> has no token.
\<close>

theorem tokenize_lossless:
  "(skipped src initial = [] \<longrightarrow> concat (map tok_value (tokenize src)) = src) \<and>
   tokenize [] = []"
proof
  show "skipped src initial = [] \<longrightarrow> concat (map tok_value (tokenize src)) = src"
  proof
    assume "skipped src initial = []"
    then have "concat (map tok_value (scan_loop src initial)) =
               concat (map tok_value (tokens initial)) @ drop (pos initial) src"
      by (rule scan_loop_lossless)
    then show "concat (map tok_value (tokenize src)) = src"
      by (simp add: tokenize_def initial_def)
  qed
  show "tokenize [] = []"
    by (simp add: tokenize_def initial_def scan_loop.simps)
qed

theorem tokenize_lossless_witness:
  "skipped (js ''a <= b && c >= d || e != f'') initial = [] \<and>
   concat (map tok_value (tokenize (js ''a <= b && c >= d || e != f''))) =
     js ''a <= b && c >= d || e != f'' \<and>
   skipped ([slash, slash, 0x40, LF, squote, 0x23, squote]) initial = [] \<and>
   concat (map tok_value (tokenize [slash, slash, 0x40, LF, squote, 0x23, squote])) =
     [slash, slash, 0x40, LF, squote, 0x23, squote]"
proof -
  let ?a = "js ''a <= b && c >= d || e != f''"
  let ?b = "[slash, slash, 0x40, LF, squote, 0x23, squote] :: jsstring"
  have a: "skipped ?a initial = []"
    by (simp add: scan_eval char_defs)
  have b: "skipped ?b initial = []"
    by (simp add: scan_eval char_defs)
  from tokenize_lossless [of ?a] a have ca: "concat (map tok_value (tokenize ?a)) = ?a"
    by blast
  from tokenize_lossless [of ?b] b have cb: "concat (map tok_value (tokenize ?b)) = ?b"
    by blast
  from a ca b cb show ?thesis by blast
qed

subsection \<open>C2: the position of a whitespace run with a line feed\<close>

text \<open>
  C2. The claim asks that every token carries the line and the column of its first unit.
  On the input \<open>a\<close>, line feed, \<open>b\<close> the Whitespace token starts at offset 1, which is
  line 1, column 2. The whitespace branch reports the line counter after the run and the
  column counter after the run minus the length of the run: line 2, column 0.
\<close>

theorem whitespace_newline_position:
  "tokenize (js ''a'' @ [LF] @ js ''b'') =
     [\<lparr>tok_type = Identifier, tok_value = js ''a'', tok_line = 1, tok_column = 1\<rparr>,
      \<lparr>tok_type = Whitespace, tok_value = [LF], tok_line = 2, tok_column = 0\<rparr>,
      \<lparr>tok_type = Identifier, tok_value = js ''b'', tok_line = 2, tok_column = 1\<rparr>] \<and>
   line_of (js ''a'' @ [LF] @ js ''b'') 1 = 1 \<and>
   column_of (js ''a'' @ [LF] @ js ''b'') 1 = 2"
  by (simp add: scan_eval char_defs line_of_def column_of_def)

subsection \<open>C3: the filters\<close>

text \<open>
  C3. \<open>stripComments\<close> and \<open>stripWhitespace\<close> keep a subsequence of their argument in its
  order, each is idempotent, they commute, and each maps the empty list to the empty list.
\<close>

theorem strip_filters_projections:
  "stripComments (stripComments t) = stripComments t \<and>
   stripWhitespace (stripWhitespace t) = stripWhitespace t \<and>
   stripWhitespace (stripComments t) = stripComments (stripWhitespace t) \<and>
   subseq (stripComments t) t \<and> subseq (stripWhitespace t) t \<and>
   stripComments [] = [] \<and> stripWhitespace [] = []"
  by (auto simp add: stripComments_def stripWhitespace_def intro: filter_cong)

subsection \<open>C4: string literals\<close>

text \<open>
  C4. At a double or single quote \<open>q\<close> the iteration emits exactly one String token. Its
  text is \<open>q\<close> followed by \<open>literal_body q\<close> of the rest of the input, and it is the slice of
  the source from the opening quote to the new cursor. Either the cursor stays inside the
  input, and then the last unit of the text is the closing \<open>q\<close>, or the cursor has passed
  the end, and then the text is all the input from the opening quote on. A backslash
  takes the unit after it into the text whatever it is, so an escaped \<open>q\<close> does not close
  the literal.
\<close>

theorem string_literal:
  assumes "pos s < length src" and "src ! pos s = dquote \<or> src ! pos s = squote"
  shows "(let q = src ! pos s; s' = step src s;
              v = q # literal_body q (drop (Suc (pos s)) src)
          in tokens s' = tokens s @
               [\<lparr>tok_type = String, tok_value = v, tok_line = line s, tok_column = column s\<rparr>] \<and>
             v = slice_js src (pos s) (pos s') \<and>
             (pos s' \<le> length src \<and> pos s + 2 \<le> pos s' \<and> src ! (pos s' - 1) = q \<or>
              length src < pos s' \<and> v = drop (pos s) src)) \<and>
         (\<forall>q d ds. q \<noteq> backslash \<longrightarrow>
            literal_body q (backslash # d # ds) = backslash # d # literal_body q ds)"
proof -
  define q where "q = src ! pos s"
  define s1 where "s1 = s\<lparr>pos := pos s + 1, column := column s + 1\<rparr>"
  define r where "r = str_loop q src s1"
  define s' where "s' = step src s"
  define v where "v = q # literal_body q (drop (Suc (pos s)) src)"
  have st: "s' = scan_string src s"
    unfolding s'_def using assms(2) by (rule step_string)
  have p': "pos s' = Suc (pos r)"
    using scan_string_fields [of src s] by (simp add: st r_def s1_def q_def)
  have le: "Suc (pos s) \<le> pos r"
    using str_loop_pos_le [of s1 q src] by (simp add: r_def s1_def)
  have "slice_js src (pos s) (pos s') = src ! pos s # slice_js src (Suc (pos s)) (pos s')"
    using assms(1) le p' by (intro slice_Cons) simp_all
  also have "slice_js src (Suc (pos s)) (pos s') = literal_body q (drop (Suc (pos s)) src)"
    using str_loop_slice [of src s1 q] by (simp add: p' r_def s1_def)
  finally have sl: "v = slice_js src (pos s) (pos s')"
    by (simp add: v_def q_def)
  have tk: "tokens s' = tokens s @
               [\<lparr>tok_type = String, tok_value = v, tok_line = line s, tok_column = column s\<rparr>]"
    using scan_string_fields [of src s] by (simp add: st [symmetric] sl)
  have fin: "pos s' \<le> length src \<and> pos s + 2 \<le> pos s' \<and> src ! (pos s' - 1) = q \<or>
              length src < pos s' \<and> v = drop (pos s) src"
  proof (cases "pos r < length src")
    case True
    then have "src ! pos r = q"
      unfolding r_def by (rule str_loop_stop)
    with True le p' show ?thesis by simp
  next
    case False
    then have "length src < pos s'"
      using p' by simp
    moreover from this have "v = drop (pos s) src"
      by (simp add: sl slice_to_end)
    ultimately show ?thesis by blast
  qed
  have esc: "\<forall>q d ds. q \<noteq> backslash \<longrightarrow>
            literal_body q (backslash # d # ds) = backslash # d # literal_body q ds"
    by simp
  from tk sl fin esc show ?thesis
    unfolding Let_def q_def [symmetric] s'_def [symmetric] v_def [symmetric] by blast
qed

theorem string_literal_witness:
  "pos initial < length ([dquote] @ js ''say '' @ [backslash, dquote] @ js ''hi'' @
      [backslash, dquote, dquote] @ js '';'') \<and>
   ([dquote] @ js ''say '' @ [backslash, dquote] @ js ''hi'' @
      [backslash, dquote, dquote] @ js '';'') ! pos initial = dquote \<and>
   tokens (step ([dquote] @ js ''say '' @ [backslash, dquote] @ js ''hi'' @
      [backslash, dquote, dquote] @ js '';'') initial) =
     [\<lparr>tok_type = String,
       tok_value = [dquote] @ js ''say '' @ [backslash, dquote] @ js ''hi'' @
                   [backslash, dquote, dquote],
       tok_line = 1, tok_column = 1\<rparr>] \<and>
   pos initial < length ([squote] @ js ''ab'') \<and>
   ([squote] @ js ''ab'') ! pos initial = squote \<and>
   tokens (step ([squote] @ js ''ab'') initial) =
     [\<lparr>tok_type = String, tok_value = [squote] @ js ''ab'', tok_line = 1, tok_column = 1\<rparr>]"
proof -
  let ?a = "[dquote] @ js ''say '' @ [backslash, dquote] @ js ''hi'' @
      [backslash, dquote, dquote] @ js '';''"
  let ?b = "[squote] @ js ''ab''"
  have a1: "pos initial < length ?a" by (simp add: initial_def js_def)
  have a2: "?a ! pos initial = dquote" by (simp add: initial_def)
  have b1: "pos initial < length ?b" by (simp add: initial_def js_def)
  have b2: "?b ! pos initial = squote" by (simp add: initial_def)
  from a2 have a2': "?a ! pos initial = dquote \<or> ?a ! pos initial = squote" by (rule disjI1)
  from b2 have b2': "?b ! pos initial = dquote \<or> ?b ! pos initial = squote" by (rule disjI2)
  from string_literal [OF a1 a2', THEN conjunct1]
  have "tokens (step ?a initial) = tokens initial @
               [\<lparr>tok_type = String,
                 tok_value = ?a ! pos initial # literal_body (?a ! pos initial) (drop (Suc (pos initial)) ?a),
                 tok_line = line initial, tok_column = column initial\<rparr>]"
    unfolding Let_def by (rule conjunct1)
  then have ca: "tokens (step ?a initial) =
     [\<lparr>tok_type = String,
       tok_value = [dquote] @ js ''say '' @ [backslash, dquote] @ js ''hi'' @
                   [backslash, dquote, dquote],
       tok_line = 1, tok_column = 1\<rparr>]"
    by (simp add: initial_def js_def)
  from string_literal [OF b1 b2', THEN conjunct1]
  have "tokens (step ?b initial) = tokens initial @
               [\<lparr>tok_type = String,
                 tok_value = ?b ! pos initial # literal_body (?b ! pos initial) (drop (Suc (pos initial)) ?b),
                 tok_line = line initial, tok_column = column initial\<rparr>]"
    unfolding Let_def by (rule conjunct1)
  then have cb: "tokens (step ?b initial) =
     [\<lparr>tok_type = String, tok_value = [squote] @ js ''ab'', tok_line = 1, tok_column = 1\<rparr>]"
    by (simp add: initial_def js_def)
  from a1 a2 ca b1 b2 cb show ?thesis by blast
qed

subsection \<open>C5: keywords and identifiers\<close>

text \<open>
  C5. At a letter or an underscore the iteration emits one token whose text is the
  maximal run of letters, digits and underscores from the cursor; its type is Keyword
  exactly when the text is one of the nine keywords, and Identifier otherwise.
  \<open>tokenize "iffy"\<close> is one Identifier and \<open>tokenize "if"\<close> is one Keyword.
\<close>

theorem keyword_or_identifier:
  assumes "pos s < length src" and "is_ident_start (src ! pos s)"
  shows "(let v = takeWhile is_ident_char (drop (pos s) src)
          in step src s =
             s\<lparr>pos := pos s + length v, column := column s + int (length v),
               tokens := tokens s @
                 [\<lparr>tok_type = (if v \<in> {js ''if'', js ''else'', js ''while'', js ''for'',
                                        js ''return'', js ''function'', js ''const'',
                                        js ''let'', js ''var''}
                                then Keyword else Identifier),
                   tok_value = v, tok_line = line s, tok_column = column s\<rparr>]\<rparr>) \<and>
         tokenize (js ''iffy'') =
           [\<lparr>tok_type = Identifier, tok_value = js ''iffy'', tok_line = 1, tok_column = 1\<rparr>] \<and>
         tokenize (js ''if'') =
           [\<lparr>tok_type = Keyword, tok_value = js ''if'', tok_line = 1, tok_column = 1\<rparr>]"
proof -
  have k: "KEYWORDS = {js ''if'', js ''else'', js ''while'', js ''for'', js ''return'',
      js ''function'', js ''const'', js ''let'', js ''var''}"
    by (simp add: KEYWORDS_def)
  have "step src s = scan_identifier src s"
    using assms by (rule step_identifier)
  then have a: "let v = takeWhile is_ident_char (drop (pos s) src)
          in step src s =
             s\<lparr>pos := pos s + length v, column := column s + int (length v),
               tokens := tokens s @
                 [\<lparr>tok_type = (if v \<in> {js ''if'', js ''else'', js ''while'', js ''for'',
                                        js ''return'', js ''function'', js ''const'',
                                        js ''let'', js ''var''}
                                then Keyword else Identifier),
                   tok_value = v, tok_line = line s, tok_column = column s\<rparr>]\<rparr>"
    unfolding k [symmetric] by (simp add: scan_identifier_eq Let_def)
  have b: "tokenize (js ''iffy'') =
           [\<lparr>tok_type = Identifier, tok_value = js ''iffy'', tok_line = 1, tok_column = 1\<rparr>]"
    by (simp add: scan_defs loop_simps char_defs)
  have c: "tokenize (js ''if'') =
           [\<lparr>tok_type = Keyword, tok_value = js ''if'', tok_line = 1, tok_column = 1\<rparr>]"
    by (simp add: scan_defs loop_simps char_defs)
  from a b c show ?thesis by blast
qed

theorem keyword_or_identifier_witness:
  "pos initial < length (js ''iffy+1'') \<and> is_ident_start (js ''iffy+1'' ! pos initial) \<and>
   step (js ''iffy+1'') initial =
     initial\<lparr>pos := 4, column := 5,
       tokens := [\<lparr>tok_type = Identifier, tok_value = js ''iffy'', tok_line = 1,
                   tok_column = 1\<rparr>]\<rparr>"
proof -
  let ?src = "js ''iffy+1''"
  have h1: "pos initial < length ?src"
    by (simp add: initial_def js_def)
  have h2: "is_ident_start (?src ! pos initial)"
    by (simp add: initial_def js_def is_ident_start_def)
  from keyword_or_identifier [OF h1 h2]
  have "let v = takeWhile is_ident_char (drop (pos initial) ?src)
          in step ?src initial =
             initial\<lparr>pos := pos initial + length v, column := column initial + int (length v),
               tokens := tokens initial @
                 [\<lparr>tok_type = (if v \<in> {js ''if'', js ''else'', js ''while'', js ''for'',
                                        js ''return'', js ''function'', js ''const'',
                                        js ''let'', js ''var''}
                                then Keyword else Identifier),
                   tok_value = v, tok_line = line initial, tok_column = column initial\<rparr>]\<rparr>"
    by (rule conjunct1)
  then have c: "step ?src initial =
     initial\<lparr>pos := 4, column := 5,
       tokens := [\<lparr>tok_type = Identifier, tok_value = js ''iffy'', tok_line = 1,
                   tok_column = 1\<rparr>]\<rparr>"
    by (simp add: Let_def initial_def char_defs)
  from h1 h2 c show ?thesis by blast
qed

subsection \<open>C6: two-character operators\<close>

text \<open>
  C6. When the unit at the cursor and the next one form one of \<open>==\<close>, \<open>!=\<close>, \<open><=\<close>, \<open>>=\<close>, \<open>&&\<close>, \<open>||\<close>, the
  iteration emits one Operator token of length 2 and moves the cursor and the column by
  two; no earlier rule can apply at such a unit. \<open>tokenize "a<=b"\<close> is
  Identifier \<open>a\<close>, Operator \<open><=\<close>, Identifier \<open>b\<close>.
\<close>

theorem two_char_operator_first:
  assumes "pos s + 1 < length src"
    and "[src ! pos s, src ! (pos s + 1)] \<in>
           {js ''=='', js ''!='', js ''<='', js ''>='', js ''&&'', js ''||''}"
  shows "step src s =
           s\<lparr>pos := pos s + 2, column := column s + 2,
             tokens := tokens s @
               [\<lparr>tok_type = Operator, tok_value = [src ! pos s, src ! (pos s + 1)],
                 tok_line = line s, tok_column = column s\<rparr>]\<rparr> \<and>
         tokenize (js ''a<=b'') =
           [\<lparr>tok_type = Identifier, tok_value = js ''a'', tok_line = 1, tok_column = 1\<rparr>,
            \<lparr>tok_type = Operator, tok_value = js ''<='', tok_line = 1, tok_column = 2\<rparr>,
            \<lparr>tok_type = Identifier, tok_value = js ''b'', tok_line = 1, tok_column = 4\<rparr>]"
proof -
  from assms(2) have m: "[src ! pos s, src ! (pos s + 1)] \<in> OPERATORS"
    by (auto simp add: OPERATORS_def js_def)
  have "step src s = scan_two_char src s"
    using assms(1) m by (rule step_two_char)
  then have a: "step src s =
           s\<lparr>pos := pos s + 2, column := column s + 2,
             tokens := tokens s @
               [\<lparr>tok_type = Operator, tok_value = [src ! pos s, src ! (pos s + 1)],
                 tok_line = line s, tok_column = column s\<rparr>]\<rparr>"
    using assms(1) by (simp add: scan_two_char_def Let_def push_def slice_two)
  have b: "tokenize (js ''a<=b'') =
           [\<lparr>tok_type = Identifier, tok_value = js ''a'', tok_line = 1, tok_column = 1\<rparr>,
            \<lparr>tok_type = Operator, tok_value = js ''<='', tok_line = 1, tok_column = 2\<rparr>,
            \<lparr>tok_type = Identifier, tok_value = js ''b'', tok_line = 1, tok_column = 4\<rparr>]"
    by (simp add: scan_defs loop_simps char_defs)
  from a b show ?thesis by blast
qed

theorem two_char_operator_first_witness:
  "pos (step (js ''a<=b'') initial) + 1 < length (js ''a<=b'') \<and>
   [js ''a<=b'' ! pos (step (js ''a<=b'') initial),
    js ''a<=b'' ! (pos (step (js ''a<=b'') initial) + 1)] = js ''<='' \<and>
   tokens (step (js ''a<=b'') (step (js ''a<=b'') initial)) =
     [\<lparr>tok_type = Identifier, tok_value = js ''a'', tok_line = 1, tok_column = 1\<rparr>,
      \<lparr>tok_type = Operator, tok_value = js ''<='', tok_line = 1, tok_column = 2\<rparr>] \<and>
   pos (step (js ''a<=b'') (step (js ''a<=b'') initial)) = 3"
proof -
  let ?src = "js ''a<=b''"
  let ?s = "step ?src initial"
  have s: "?s = \<lparr>pos = 1, line = 1, column = 2,
      tokens = [\<lparr>tok_type = Identifier, tok_value = js ''a'', tok_line = 1, tok_column = 1\<rparr>]\<rparr>"
    by (simp add: scan_defs loop_simps char_defs)
  have h1: "pos ?s + 1 < length ?src"
    by (simp add: s) (simp add: js_def)
  have v: "[?src ! pos ?s, ?src ! (pos ?s + 1)] = js ''<=''"
    by (simp add: s) (simp add: js_def)
  then have h2: "[?src ! pos ?s, ?src ! (pos ?s + 1)] \<in>
           {js ''=='', js ''!='', js ''<='', js ''>='', js ''&&'', js ''||''}"
    by simp
  from two_char_operator_first [OF h1 h2]
  have "step ?src ?s =
           ?s\<lparr>pos := pos ?s + 2, column := column ?s + 2,
             tokens := tokens ?s @
               [\<lparr>tok_type = Operator, tok_value = [?src ! pos ?s, ?src ! (pos ?s + 1)],
                 tok_line = line ?s, tok_column = column ?s\<rparr>]\<rparr>"
    by (rule conjunct1)
  then have c: "tokens (step ?src ?s) =
     [\<lparr>tok_type = Identifier, tok_value = js ''a'', tok_line = 1, tok_column = 1\<rparr>,
      \<lparr>tok_type = Operator, tok_value = js ''<='', tok_line = 1, tok_column = 2\<rparr>] \<and>
     pos (step ?src ?s) = 3"
    unfolding v by (simp add: s)
  from h1 v c show ?thesis by blast
qed

subsection \<open>C7: comments before the division operator\<close>

text \<open>
  C7. At a \<open>/\<close> followed by a second \<open>/\<close> the iteration emits one Comment token: the
  units from the cursor up to the next line feed or the end of the input. The line feed
  is not part of the text; the cursor stops on it and the next iteration emits a
  Whitespace token that begins with it. At a \<open>/\<close> not followed by \<open>/\<close> the iteration
  emits the Operator token \<open>/\<close> of length 1.
\<close>

theorem comment_before_operator:
  assumes "pos s < length src" and "src ! pos s = slash"
  shows "(char_is src (pos s + 1) slash \<longrightarrow>
           (let c = takeWhile (\<lambda>x. x \<noteq> LF) (drop (pos s) src); s' = step src s
            in s' = s\<lparr>pos := pos s + length c, column := column s + int (length c),
                      tokens := tokens s @
                        [\<lparr>tok_type = Comment, tok_value = c, tok_line = line s,
                          tok_column = column s\<rparr>]\<rparr> \<and>
               LF \<notin> set c \<and> take 2 c = [slash, slash] \<and>
               (pos s' = length src \<or>
                pos s' < length src \<and> src ! pos s' = LF \<and>
                (let w = takeWhile is_space (drop (pos s') src)
                 in tokens (step src s') = tokens s' @ [last (tokens (step src s'))] \<and>
                    tok_type (last (tokens (step src s'))) = Whitespace \<and>
                    tok_value (last (tokens (step src s'))) = w \<and> hd w = LF)))) \<and>
         (\<not> char_is src (pos s + 1) slash \<longrightarrow>
           step src s =
             s\<lparr>pos := pos s + 1, column := column s + 1,
               tokens := tokens s @
                 [\<lparr>tok_type = Operator, tok_value = [slash], tok_line = line s,
                   tok_column = column s\<rparr>]\<rparr>)"
proof (intro conjI impI)
  assume n: "\<not> char_is src (pos s + 1) slash"
  have "step src s = scan_one_char Operator src s"
    using assms n by (rule step_slash_operator)
  then show "step src s =
             s\<lparr>pos := pos s + 1, column := column s + 1,
               tokens := tokens s @
                 [\<lparr>tok_type = Operator, tok_value = [slash], tok_line = line s,
                   tok_column = column s\<rparr>]\<rparr>"
    using assms(2) by (simp add: scan_one_char_def Let_def push_def)
next
  assume c2: "char_is src (pos s + 1) slash"
  define c where "c = takeWhile (\<lambda>x. x \<noteq> LF) (drop (pos s) src)"
  define s' where "s' = step src s"
  have st: "s' = s\<lparr>pos := pos s + length c, column := column s + int (length c),
                      tokens := tokens s @
                        [\<lparr>tok_type = Comment, tok_value = c, tok_line = line s,
                          tok_column = column s\<rparr>]\<rparr>"
    using step_comment [OF assms(2) c2] by (simp add: s'_def c_def scan_comment_eq Let_def)
  have nl: "LF \<notin> set c"
    unfolding c_def using set_takeWhileD by fastforce
  from c2 have lt: "Suc (pos s) < length src" and nx: "src ! Suc (pos s) = slash"
    by (simp_all add: char_is_def)
  have d: "drop (pos s) src = slash # slash # drop (Suc (Suc (pos s))) src"
    using assms lt nx by (simp add: Cons_nth_drop_Suc [symmetric])
  have pre: "take 2 c = [slash, slash]"
    by (simp add: c_def d)
  have p': "pos s' = pos s + length c"
    using st by simp
  have le: "pos s' \<le> length src"
    using p' length_takeWhile_le [of "\<lambda>x. x \<noteq> LF" "drop (pos s) src"] assms(1)
    by (simp add: c_def)
  have follow: "pos s' = length src \<or>
                pos s' < length src \<and> src ! pos s' = LF \<and>
                (let w = takeWhile is_space (drop (pos s') src)
                 in tokens (step src s') = tokens s' @ [last (tokens (step src s'))] \<and>
                    tok_type (last (tokens (step src s'))) = Whitespace \<and>
                    tok_value (last (tokens (step src s'))) = w \<and> hd w = LF)"
  proof (cases "pos s' = length src")
    case True
    then show ?thesis by simp
  next
    case False
    with le have lt': "pos s' < length src" by simp
    have "\<not> (src ! (pos s + length c) \<noteq> LF)"
      using takeWhile_stop [of "pos s" "\<lambda>x. x \<noteq> LF" src] lt' p' by (simp add: c_def)
    then have lf: "src ! pos s' = LF"
      using p' by simp
    then have w: "step src s' = scan_whitespace src s'"
      by (simp add: step_whitespace LF_is_space)
    have dw: "drop (pos s') src = LF # drop (Suc (pos s')) src"
      using lt' lf by (simp add: Cons_nth_drop_Suc [symmetric])
    have "hd (takeWhile is_space (drop (pos s') src)) = LF"
      by (simp add: dw LF_is_space)
    with lt' lf w show ?thesis
      by (simp add: scan_whitespace_eq Let_def)
  qed
  from st nl pre follow
  show "let c = takeWhile (\<lambda>x. x \<noteq> LF) (drop (pos s) src); s' = step src s
            in s' = s\<lparr>pos := pos s + length c, column := column s + int (length c),
                      tokens := tokens s @
                        [\<lparr>tok_type = Comment, tok_value = c, tok_line = line s,
                          tok_column = column s\<rparr>]\<rparr> \<and>
               LF \<notin> set c \<and> take 2 c = [slash, slash] \<and>
               (pos s' = length src \<or>
                pos s' < length src \<and> src ! pos s' = LF \<and>
                (let w = takeWhile is_space (drop (pos s') src)
                 in tokens (step src s') = tokens s' @ [last (tokens (step src s'))] \<and>
                    tok_type (last (tokens (step src s'))) = Whitespace \<and>
                    tok_value (last (tokens (step src s'))) = w \<and> hd w = LF))"
    unfolding Let_def c_def [symmetric] s'_def [symmetric] by blast
qed

theorem comment_before_operator_witness:
  "pos initial < length (js ''//c'' @ [LF] @ js ''d'') \<and>
   (js ''//c'' @ [LF] @ js ''d'') ! pos initial = slash \<and>
   char_is (js ''//c'' @ [LF] @ js ''d'') (pos initial + 1) slash \<and>
   step (js ''//c'' @ [LF] @ js ''d'') initial =
     initial\<lparr>pos := 3, column := 4,
       tokens := [\<lparr>tok_type = Comment, tok_value = js ''//c'', tok_line = 1,
                   tok_column = 1\<rparr>]\<rparr> \<and>
   pos initial < length (js ''/2'') \<and> js ''/2'' ! pos initial = slash \<and>
   \<not> char_is (js ''/2'') (pos initial + 1) slash \<and>
   step (js ''/2'') initial =
     initial\<lparr>pos := 1, column := 2,
       tokens := [\<lparr>tok_type = Operator, tok_value = js ''/'', tok_line = 1,
                   tok_column = 1\<rparr>]\<rparr>"
proof -
  let ?a = "js ''//c'' @ [LF] @ js ''d''"
  let ?b = "js ''/2''"
  have a1: "pos initial < length ?a" by (simp add: initial_def js_def)
  have a2: "?a ! pos initial = slash" by (simp add: initial_def js_def)
  have a3: "char_is ?a (pos initial + 1) slash" by (simp add: initial_def js_def char_is_def)
  have b1: "pos initial < length ?b" by (simp add: initial_def js_def)
  have b2: "?b ! pos initial = slash" by (simp add: initial_def js_def)
  have b3: "\<not> char_is ?b (pos initial + 1) slash" by (simp add: initial_def js_def char_is_def)
  from comment_before_operator [OF a1 a2] a3
  have "let c = takeWhile (\<lambda>x. x \<noteq> LF) (drop (pos initial) ?a); s' = step ?a initial
            in s' = initial\<lparr>pos := pos initial + length c, column := column initial + int (length c),
                      tokens := tokens initial @
                        [\<lparr>tok_type = Comment, tok_value = c, tok_line = line initial,
                          tok_column = column initial\<rparr>]\<rparr> \<and>
               LF \<notin> set c \<and> take 2 c = [slash, slash] \<and>
               (pos s' = length ?a \<or>
                pos s' < length ?a \<and> ?a ! pos s' = LF \<and>
                (let w = takeWhile is_space (drop (pos s') ?a)
                 in tokens (step ?a s') = tokens s' @ [last (tokens (step ?a s'))] \<and>
                    tok_type (last (tokens (step ?a s'))) = Whitespace \<and>
                    tok_value (last (tokens (step ?a s'))) = w \<and> hd w = LF))"
    by blast
  then have "step ?a initial = initial\<lparr>pos := pos initial + length (takeWhile (\<lambda>x. x \<noteq> LF) (drop (pos initial) ?a)),
       column := column initial + int (length (takeWhile (\<lambda>x. x \<noteq> LF) (drop (pos initial) ?a))),
       tokens := tokens initial @
                        [\<lparr>tok_type = Comment, tok_value = takeWhile (\<lambda>x. x \<noteq> LF) (drop (pos initial) ?a), tok_line = line initial,
                          tok_column = column initial\<rparr>]\<rparr>"
    unfolding Let_def by (rule conjunct1)
  then have ca: "step ?a initial =
     initial\<lparr>pos := 3, column := 4,
       tokens := [\<lparr>tok_type = Comment, tok_value = js ''//c'', tok_line = 1,
                   tok_column = 1\<rparr>]\<rparr>"
    by (simp add: initial_def js_def)
  from comment_before_operator [OF b1 b2] b3
  have "step ?b initial =
             initial\<lparr>pos := pos initial + 1, column := column initial + 1,
               tokens := tokens initial @
                 [\<lparr>tok_type = Operator, tok_value = [slash], tok_line = line initial,
                   tok_column = column initial\<rparr>]\<rparr>"
    by blast
  then have cb: "step ?b initial =
     initial\<lparr>pos := 1, column := 2,
       tokens := [\<lparr>tok_type = Operator, tok_value = js ''/'', tok_line = 1,
                   tok_column = 1\<rparr>]\<rparr>"
    by (simp add: initial_def js_def)
  from a1 a2 a3 ca b1 b2 b3 cb show ?thesis by blast
qed

subsection \<open>C8: termination\<close>

text \<open>
  C8. An iteration entered with the cursor inside the input leaves the cursor strictly
  further on; in the unrecognized branch it moves the cursor and the column by one and
  emits nothing. So the loop body, run from the initial state, reaches the end of the
  input after at most \<open>length src\<close> iterations, each of them entered inside the input and
  each advancing the cursor, and \<open>tokenize\<close> returns the tokens of the state reached.
\<close>

theorem tokenize_terminates:
  "(pos s < length src \<longrightarrow> pos s < pos (step src s)) \<and>
   (pos s < length src \<and> unrecognized src s \<longrightarrow>
      step src s = s\<lparr>pos := pos s + 1, column := column s + 1\<rparr>) \<and>
   (\<exists>k\<le>length src.
      length src \<le> pos ((step src ^^ k) initial) \<and>
      tokenize src = tokens ((step src ^^ k) initial) \<and>
      (\<forall>j<k. pos ((step src ^^ j) initial) < length src \<and>
              pos ((step src ^^ j) initial) < pos ((step src ^^ Suc j) initial)))"
proof (intro conjI impI)
  assume "pos s < length src"
  then show "pos s < pos (step src s)"
    by (rule step_advances)
next
  assume "pos s < length src \<and> unrecognized src s"
  then show "step src s = s\<lparr>pos := pos s + 1, column := column s + 1\<rparr>"
    by (auto simp add: step_def unrecognized_def Let_def skip_unknown_def)
next
  from scan_loop_iterates [of src initial]
  show "\<exists>k\<le>length src.
      length src \<le> pos ((step src ^^ k) initial) \<and>
      tokenize src = tokens ((step src ^^ k) initial) \<and>
      (\<forall>j<k. pos ((step src ^^ j) initial) < length src \<and>
              pos ((step src ^^ j) initial) < pos ((step src ^^ Suc j) initial))"
    by (simp add: tokenize_def initial_def)
qed

theorem tokenize_terminates_witness:
  "pos initial < length (js ''@a'') \<and> unrecognized (js ''@a'') initial \<and>
   pos initial < pos (step (js ''@a'') initial) \<and>
   step (js ''@a'') initial = initial\<lparr>pos := pos initial + 1, column := column initial + 1\<rparr> \<and>
   tokenize (js ''@a'') =
     [\<lparr>tok_type = Identifier, tok_value = js ''a'', tok_line = 1, tok_column = 2\<rparr>]"
proof -
  let ?src = "js ''@a''"
  have h1: "pos initial < length ?src"
    by (simp add: initial_def js_def)
  have h2: "unrecognized ?src initial"
    by (simp add: scan_defs char_defs)
  note t = tokenize_terminates [of initial ?src]
  from t h1 have c1: "pos initial < pos (step ?src initial)"
    by blast
  from t h1 h2 have c2: "step ?src initial = initial\<lparr>pos := pos initial + 1, column := column initial + 1\<rparr>"
    by blast
  have e: "tokenize ?src =
     [\<lparr>tok_type = Identifier, tok_value = js ''a'', tok_line = 1, tok_column = 2\<rparr>]"
    by (simp add: scan_defs loop_simps char_defs)
  from h1 h2 c1 c2 e show ?thesis
    by blast
qed

subsection \<open>C9: line feeds inside string literals\<close>

text \<open>
  C9. The string branch leaves the line counter as it was and moves the column counter
  by as much as the cursor. For every input, the line field of every token is one more
  than the number of line feeds in the texts of the tokens up to and including it that
  are not string literals: a line feed inside a string literal is never counted.
\<close>

theorem string_newlines_not_counted:
  "(pos s < length src \<and> (src ! pos s = dquote \<or> src ! pos s = squote) \<longrightarrow>
      line (step src s) = line s \<and>
      column (step src s) = column s + (int (pos (step src s)) - int (pos s))) \<and>
   (\<forall>i<length (tokenize src).
      tok_line (tokenize src ! i) = 1 + outside_LF (take (Suc i) (tokenize src)))"
proof (intro conjI impI)
  assume a: "pos s < length src \<and> (src ! pos s = dquote \<or> src ! pos s = squote)"
  then have st: "step src s = scan_string src s"
    by (simp add: step_string)
  show "line (step src s) = line s"
    using scan_string_fields [of src s] by (simp add: st)
  show "column (step src s) = column s + (int (pos (step src s)) - int (pos s))"
    using scan_string_fields [of src s] by (simp add: st)
next
  have "lines_ok (scan_loop src initial)"
    by (rule scan_loop_lines) (simp_all add: lines_ok_def outside_LF_def initial_def)
  then show "\<forall>i<length (tokenize src).
      tok_line (tokenize src ! i) = 1 + outside_LF (take (Suc i) (tokenize src))"
    by (simp add: lines_ok_def tokenize_def)
qed

theorem string_newlines_not_counted_witness:
  "pos initial < length ([squote, 0x61, LF, 0x62, squote, 0x20, 0x63]) \<and>
   [squote, 0x61, LF, 0x62, squote, 0x20, 0x63] ! pos initial = squote \<and>
   line (step [squote, 0x61, LF, 0x62, squote, 0x20, 0x63] initial) = line initial \<and>
   column (step [squote, 0x61, LF, 0x62, squote, 0x20, 0x63] initial) = 6 \<and>
   tokenize [squote, 0x61, LF, 0x62, squote, 0x20, 0x63] =
     [\<lparr>tok_type = String, tok_value = [squote, 0x61, LF, 0x62, squote], tok_line = 1,
        tok_column = 1\<rparr>,
      \<lparr>tok_type = Whitespace, tok_value = [0x20], tok_line = 1, tok_column = 6\<rparr>,
      \<lparr>tok_type = Identifier, tok_value = [0x63], tok_line = 1, tok_column = 7\<rparr>] \<and>
   tok_line (tokenize [squote, 0x61, LF, 0x62, squote, 0x20, 0x63] ! 2) = 1"
proof -
  let ?src = "[squote, 0x61, LF, 0x62, squote, 0x20, 0x63] :: jsstring"
  have h1: "pos initial < length ?src" by (simp add: initial_def)
  have h2: "?src ! pos initial = squote" by (simp add: initial_def)
  have tk: "tokenize ?src =
     [\<lparr>tok_type = String, tok_value = [squote, 0x61, LF, 0x62, squote], tok_line = 1,
        tok_column = 1\<rparr>,
      \<lparr>tok_type = Whitespace, tok_value = [0x20], tok_line = 1, tok_column = 6\<rparr>,
      \<lparr>tok_type = Identifier, tok_value = [0x63], tok_line = 1, tok_column = 7\<rparr>]"
    by (simp add: scan_eval char_defs)
  have p: "pos (step ?src initial) = 5"
    by (simp add: scan_eval char_defs)
  note t = string_newlines_not_counted [of initial ?src]
  from t h1 h2 have c1: "line (step ?src initial) = line initial"
    by blast
  from t h1 h2 have "column (step ?src initial) =
      column initial + (int (pos (step ?src initial)) - int (pos initial))"
    by blast
  then have c2: "column (step ?src initial) = 6"
    by (simp add: p) (simp add: initial_def)
  have i: "2 < length (tokenize ?src)"
    by (simp add: tk)
  from t i have "tok_line (tokenize ?src ! 2) = 1 + outside_LF (take (Suc 2) (tokenize ?src))"
    by blast
  then have c3: "tok_line (tokenize ?src ! 2) = 1"
    by (simp add: tk outside_LF_def)
  from h1 h2 c1 c2 tk c3 show ?thesis by blast
qed

subsection \<open>C10: a lone exclamation mark\<close>

text \<open>
  C10. \<open>!\<close> (0x21) is no one-unit operator and no punctuation, and the only operator
  that begins with it is \<open>!=\<close>. So at a \<open>!\<close> not followed by \<open>=\<close> the iteration is the
  unrecognized one: cursor and column move by one and no token is emitted.
  \<open>tokenize "!"\<close> is empty.
\<close>

theorem lone_bang_discarded:
  assumes "pos s < length src" and "src ! pos s = 0x21"
    and "\<not> char_is src (pos s + 1) 0x3D"
  shows "unrecognized src s \<and>
         step src s = s\<lparr>pos := pos s + 1, column := column s + 1\<rparr> \<and>
         tokens (step src s) = tokens s \<and>
         [0x21] \<notin> OPERATORS \<and> [0x21] \<notin> PUNCTUATION \<and>
         (\<forall>d. ([0x21, d] \<in> OPERATORS) = (d = 0x3D)) \<and>
         tokenize (js ''!'') = []"
proof -
  have two: "\<not> (pos s + 1 < length src \<and> slice_js src (pos s) (pos s + 2) \<in> OPERATORS)"
    using assms(2,3) by (auto simp add: slice_two two_char_operators char_is_def)
  have u: "unrecognized src s"
    using assms(2) two bang_class by (simp add: unrecognized_def Let_def char_is_def)
  then have st: "step src s = s\<lparr>pos := pos s + 1, column := column s + 1\<rparr>"
    using assms(1) by (auto simp add: step_def unrecognized_def Let_def skip_unknown_def)
  then have tk: "tokens (step src s) = tokens s"
    by simp
  have ops: "\<forall>d. ([0x21, d] \<in> OPERATORS) = (d = 0x3D)"
    by (simp add: two_char_operators)
  have e: "tokenize (js ''!'') = []"
    by (simp add: scan_defs loop_simps char_defs)
  from u st tk ops e bang_class show ?thesis
    by blast
qed

theorem lone_bang_discarded_witness:
  "pos initial < length (js ''!a'') \<and> js ''!a'' ! pos initial = 0x21 \<and>
   \<not> char_is (js ''!a'') (pos initial + 1) 0x3D \<and>
   unrecognized (js ''!a'') initial \<and>
   step (js ''!a'') initial = initial\<lparr>pos := pos initial + 1, column := column initial + 1\<rparr>"
proof -
  let ?src = "js ''!a''"
  have h1: "pos initial < length ?src"
    by (simp add: initial_def js_def)
  have h2: "?src ! pos initial = 0x21"
    by (simp add: initial_def js_def)
  have h3: "\<not> char_is ?src (pos initial + 1) 0x3D"
    by (simp add: initial_def js_def char_is_def)
  note t = lone_bang_discarded [OF h1 h2 h3]
  from t have c1: "unrecognized ?src initial"
    by (rule conjunct1)
  from t have c2: "step ?src initial = initial\<lparr>pos := pos initial + 1, column := column initial + 1\<rparr>"
    by blast
  from h1 h2 h3 c1 c2 show ?thesis by blast
qed

end
